theory Spec2Isabelle
  imports Main "HOL-Library.Sublist"
begin

section \<open>The batch converter of \<^verbatim>\<open>src/converter/convert.py\<close>\<close>

text \<open>
  The script expands its glob arguments, and for every matched file reads it, parses it
  as JSON, hands the document to the captioning library, derives the output path from the
  input path and writes the captions there.

  Paths and file contents are byte strings (\<open>string\<close> is \<open>char list\<close>, a \<open>char\<close> is a
  byte). The three path operations of the script look only at the ASCII bytes of
  \<^verbatim>\<open>_response\<close>, \<^verbatim>\<open>/\<close> and \<^verbatim>\<open>.\<close>; in UTF-8 such a byte never
  occurs inside the encoding of another character, so the byte-level operations agree with
  Python's operations on code points.
\<close>

subsection \<open>Exceptions\<close>

datatype error =
    SystemExit nat            \<comment> \<open>argparse: usage error (status 2) or help (status 0)\<close>
  | OSError_read              \<comment> \<open>\<^verbatim>\<open>open(file)\<close> fails\<close>
  | UnicodeDecodeError        \<comment> \<open>\<^verbatim>\<open>f.read()\<close>: the bytes are not UTF-8\<close>
  | JSONDecodeError           \<comment> \<open>\<^verbatim>\<open>json.loads\<close>: the text is malformed\<close>
  | RecursionError            \<comment> \<open>\<^verbatim>\<open>json.loads\<close>: the text is nested too deeply\<close>
  | ConverterError            \<comment> \<open>raised inside \<^verbatim>\<open>DeepgramConverter\<close> or \<^verbatim>\<open>srt\<close>\<close>
  | ValueError                \<comment> \<open>\<^verbatim>\<open>Path.with_suffix\<close>; \<^verbatim>\<open>json.loads\<close> on a number of too many digits\<close>
  | OSError_write             \<comment> \<open>\<^verbatim>\<open>open(output_file, 'w+')\<close> fails\<close>
  | UnicodeEncodeError        \<comment> \<open>\<^verbatim>\<open>f.write(captions)\<close>: the text has no UTF-8 encoding\<close>

subsection \<open>\<^verbatim>\<open>str.replace\<close>\<close>

text \<open>
  \<^verbatim>\<open>s.replace(old, new)\<close>: every occurrence of \<open>old\<close>, found from left to right and
  not overlapping an earlier one, is replaced; the search resumes after the occurrence.
  With an empty \<open>old\<close>, \<open>new\<close> is inserted before every character and at the end.
\<close>

function str_replace :: "string \<Rightarrow> string \<Rightarrow> string \<Rightarrow> string" where
  "str_replace old new [] = (if old = [] then new else [])"
| "str_replace old new (c # cs) =
     (if old = [] then new @ c # str_replace old new cs
      else if prefix old (c # cs)
        then new @ str_replace old new (drop (length old) (c # cs))
        else c # str_replace old new cs)"
  by pat_completeness auto
termination
  by (relation "measure (\<lambda>(old, new, s). length s)") auto

subsection \<open>\<^verbatim>\<open>pathlib.PurePosixPath\<close>\<close>

text \<open>
  The part of CPython's pathlib (POSIX flavour, versions up to 3.13) that
  \<^verbatim>\<open>Path(file).with_suffix('.srt')\<close> and the conversion back to a string run through.
  A POSIX path has no drive, so a parsed path is its root and the list of its components.
\<close>

record PurePath =
  root :: string
  tail :: "string list"

text \<open>\<^verbatim>\<open>s.split(sep)\<close> for a separator of one character.\<close>

fun split_on :: "char \<Rightarrow> string \<Rightarrow> string list" where
  "split_on sep [] = [[]]"
| "split_on sep (c # cs) =
     (if c = sep then [] # split_on sep cs
      else (case split_on sep cs of [] \<Rightarrow> [[c]] | x # xs \<Rightarrow> (c # x) # xs))"

text \<open>\<^verbatim>\<open>sep.join(xs)\<close>.\<close>

fun join :: "string \<Rightarrow> string list \<Rightarrow> string" where
  "join sep [] = []"
| "join sep [x] = x"
| "join sep (x # y # ys) = x @ sep @ join sep (y # ys)"

text \<open>
  \<^verbatim>\<open>posixpath.splitroot\<close>: a path starting with exactly two slashes keeps them as its
  root, any other absolute path has the root \<^verbatim>\<open>/\<close>.
\<close>

definition splitroot :: "string \<Rightarrow> string \<times> string" where
  "splitroot p =
     (if take 1 p \<noteq> ''/'' then ('''', p)
      else if take 1 (drop 1 p) \<noteq> ''/'' \<or> take 1 (drop 2 p) = ''/'' then (''/'', drop 1 p)
      else (''//'', drop 2 p))"

text \<open>\<^verbatim>\<open>Path(p)\<close>: empty components and \<^verbatim>\<open>.\<close> components are dropped.\<close>

definition Path :: "string \<Rightarrow> PurePath" where
  "Path p =
     (if p = [] then \<lparr>root = '''', tail = []\<rparr>
      else (case splitroot p of (r, rel) \<Rightarrow>
        \<lparr>root = r, tail = filter (\<lambda>x. x \<noteq> [] \<and> x \<noteq> ''.'') (split_on CHR ''/'' rel)\<rparr>))"

text \<open>\<^verbatim>\<open>str(path)\<close>, which is what \<^verbatim>\<open>open\<close> receives.\<close>

definition str_of :: "PurePath \<Rightarrow> string" where
  "str_of P = (let s = root P @ join ''/'' (tail P) in if s = [] then ''.'' else s)"

definition name :: "PurePath \<Rightarrow> string" where
  "name P = (if tail P = [] then [] else last (tail P))"

text \<open>\<^verbatim>\<open>s.rfind(c)\<close>, with \<open>None\<close> for Python's \<open>-1\<close>.\<close>

fun rfind :: "char \<Rightarrow> string \<Rightarrow> nat option" where
  "rfind c [] = None"
| "rfind c (x # xs) =
     (case rfind c xs of Some i \<Rightarrow> Some (Suc i)
      | None \<Rightarrow> if x = c then Some 0 else None)"

text \<open>
  \<^verbatim>\<open>path.suffix\<close>: the part of the name from its last dot on, unless that dot is the
  first or the last character of the name.
\<close>

definition suffix_of :: "PurePath \<Rightarrow> string" where
  "suffix_of P =
     (case rfind CHR ''.'' (name P) of
        None \<Rightarrow> []
      | Some i \<Rightarrow> if 0 < i \<and> i < length (name P) - 1 then drop i (name P) else [])"

definition with_suffix :: "PurePath \<Rightarrow> string \<Rightarrow> error + PurePath" where
  "with_suffix P sfx =
     (if CHR ''/'' \<in> set sfx then Inl ValueError
      else if (sfx \<noteq> [] \<and> take 1 sfx \<noteq> ''.'') \<or> sfx = ''.'' then Inl ValueError
      else if name P = [] then Inl ValueError
      else Inr (P\<lparr>tail := butlast (tail P) @
             [(if suffix_of P = [] then name P @ sfx
               else take (length (name P) - length (suffix_of P)) (name P) @ sfx)]\<rparr>))"

subsection \<open>The output path (lines 31 to 33 of \<^verbatim>\<open>main\<close>)\<close>

text \<open>
  \<^verbatim>\<open>file = file.replace("_response", "")\<close> and
  \<^verbatim>\<open>output_file = Path(file).with_suffix('.srt')\<close>; the result is the string that
  \<^verbatim>\<open>open(output_file, 'w+')\<close> opens, or the exception of \<^verbatim>\<open>with_suffix\<close>.
\<close>

definition output_file :: "string \<Rightarrow> error + string" where
  "output_file file =
     (case with_suffix (Path (str_replace ''_response'' '''' file)) ''.srt'' of
        Inl e \<Rightarrow> Inl e
      | Inr P \<Rightarrow> Inr (str_of P))"

subsection \<open>The world outside the script\<close>

text \<open>
  Files are told apart by what a path leads to, not by how the path is spelled. POSIX
  path resolution walks the components of a path, from the root when the path starts with
  a slash and from the working directory otherwise; an empty component (a repeated or a
  trailing slash) and the component \<^verbatim>\<open>.\<close> stay in the directory reached so far.
  Where a walk ends (the working directory, \<^verbatim>\<open>..\<close>, links) is the parameter
  \<open>resolve\<close> below: two paths with the same walk are one file, and nothing is assumed
  about two paths with different walks.
\<close>

definition path_steps :: "string \<Rightarrow> bool \<times> string list" where
  "path_steps p =
     (take 1 p = ''/'', filter (\<lambda>x. x \<noteq> [] \<and> x \<noteq> ''.'') (split_on CHR ''/'' p))"

text \<open>
  \<^verbatim>\<open>posixpath.split\<close>: the filename component of a path, what follows its last slash,
  and the rest of the path, up to and including that slash.
\<close>

definition filename_of :: "string \<Rightarrow> string" where
  "filename_of p = rev (takeWhile (\<lambda>c. c \<noteq> CHR ''/'') (rev p))"

definition directory_of :: "string \<Rightarrow> string" where
  "directory_of p = rev (dropWhile (\<lambda>c. c \<noteq> CHR ''/'') (rev p))"

type_synonym bytes = string
type_synonym 'k disk = "'k \<rightharpoonup> bytes"

text \<open>What a run does to the file system, in the order it happens, with the paths as
  the script spells them.\<close>

datatype event =
    Glob string           \<comment> \<open>\<^verbatim>\<open>glob.glob(pattern)\<close>\<close>
  | Read string           \<comment> \<open>a file opened and read to its end\<close>
  | Truncate string       \<comment> \<open>a file opened with mode \<^verbatim>\<open>w+\<close>: created or emptied\<close>
  | Write string bytes    \<comment> \<open>data written to the file just opened\<close>

text \<open>
  The operating system and the libraries the script calls, as parameters. \<open>'t\<close> is
  Python's \<^verbatim>\<open>str\<close> for file contents, \<open>'j\<close> the parsed JSON value, \<open>'m\<close> the
  \<^verbatim>\<open>DeepgramConverter\<close> object, \<open>'k\<close> the identity of a file. A result \<open>None\<close>
  stands for the call raising an exception; \<^verbatim>\<open>json.loads\<close> says which one.
\<close>

record ('t, 'j, 'm, 'k) env =
  argparse_options :: "string list \<Rightarrow> error + string list"
    \<comment> \<open>argparse on a command line with an argument starting with \<^verbatim>\<open>-\<close>\<close>
  resolve :: "bool \<times> string list \<Rightarrow> 'k"
    \<comment> \<open>the file at the end of a walk\<close>
  glob_glob :: "'k disk \<Rightarrow> string \<Rightarrow> string list"
    \<comment> \<open>\<^verbatim>\<open>glob.glob\<close>: the matches of a pattern in a file system, in the order it lists them\<close>
  decode_utf8 :: "bytes \<Rightarrow> 't option"
    \<comment> \<open>the text layer of \<^verbatim>\<open>open(file, encoding="utf-8")\<close> on reading\<close>
  json_loads :: "'t \<Rightarrow> error + 'j"
  DeepgramConverter :: "'j \<Rightarrow> 'm option"
  srt :: "'m \<Rightarrow> 't option"
  may_open_w :: "'k \<Rightarrow> bool"
    \<comment> \<open>whether the file can be opened with mode \<^verbatim>\<open>w+\<close> (directory present, permissions)\<close>
  encode_utf8 :: "'t \<Rightarrow> bytes option"
    \<comment> \<open>the text layer of \<^verbatim>\<open>open(output_file, 'w+', encoding="utf-8")\<close> on writing\<close>

text \<open>The file a path leads to.\<close>

definition key :: "('t, 'j, 'm, 'k) env \<Rightarrow> string \<Rightarrow> 'k" where
  "key E p = resolve E (path_steps p)"

text \<open>
  The file that \<^verbatim>\<open>open(p)\<close> opens. A path whose last component is empty,
  \<^verbatim>\<open>.\<close> or \<^verbatim>\<open>..\<close> leads to a directory or nowhere, and \<^verbatim>\<open>open\<close> fails on it.
\<close>

definition locate :: "('t, 'j, 'm, 'k) env \<Rightarrow> string \<Rightarrow> 'k option" where
  "locate E p = (if filename_of p \<in> {[], ''.'', ''..''} then None else Some (key E p))"

text \<open>
  The result of running a piece of the script: the exception that ended it, if any, the
  file system it leaves and the file operations it made.
\<close>

record 'k run =
  raised :: "error option"
  disk :: "'k disk"
  io :: "event list"

subsection \<open>\<^verbatim>\<open>parse_arguments\<close>\<close>

text \<open>
  One positional argument with \<^verbatim>\<open>nargs='+'\<close>. Without arguments argparse prints the
  usage message and exits with status 2; when no argument starts with \<^verbatim>\<open>-\<close> all of
  them are the globs. Anything else (\<^verbatim>\<open>-h\<close>, an unknown option, \<^verbatim>\<open>--\<close>) is left to
  \<open>argparse_options\<close>.
\<close>

definition parse_arguments ::
  "('t, 'j, 'm, 'k) env \<Rightarrow> string list \<Rightarrow> error + string list" where
  "parse_arguments E argv =
     (if argv = [] then Inl (SystemExit 2)
      else if list_all (\<lambda>a. take 1 a \<noteq> ''-'') argv then Inr argv
      else argparse_options E argv)"

subsection \<open>\<^verbatim>\<open>main\<close>\<close>

text \<open>Lines 16 to 18: \<^verbatim>\<open>files.extend(glob.glob(file_glob))\<close> for every glob.\<close>

fun extend_globs ::
  "('t, 'j, 'm, 'k) env \<Rightarrow> 'k disk \<Rightarrow> string list \<Rightarrow> string list \<Rightarrow> string list" where
  "extend_globs E fs files [] = files"
| "extend_globs E fs files (file_glob # file_globs) =
     extend_globs E fs (files @ glob_glob E fs file_glob) file_globs"

text \<open>
  Lines 21 to 36: the body of the loop for one file. The file is opened and read to its
  end before anything else happens; the output is opened, which empties it, only after
  the captions are there.
\<close>

definition process_file :: "('t, 'j, 'm, 'k) env \<Rightarrow> 'k disk \<Rightarrow> string \<Rightarrow> 'k run" where
  "process_file E fs file =
     (case locate E file of
        None \<Rightarrow> \<lparr>raised = Some OSError_read, disk = fs, io = []\<rparr>
      | Some k \<Rightarrow>
     (case fs k of
        None \<Rightarrow> \<lparr>raised = Some OSError_read, disk = fs, io = []\<rparr>
      | Some raw \<Rightarrow>
     (case decode_utf8 E raw of
        None \<Rightarrow> \<lparr>raised = Some UnicodeDecodeError, disk = fs, io = [Read file]\<rparr>
      | Some file_data \<Rightarrow>
     (case json_loads E file_data of
        Inl e \<Rightarrow> \<lparr>raised = Some e, disk = fs, io = [Read file]\<rparr>
      | Inr dg_response \<Rightarrow>
     (case DeepgramConverter E dg_response of
        None \<Rightarrow> \<lparr>raised = Some ConverterError, disk = fs, io = [Read file]\<rparr>
      | Some transcription \<Rightarrow>
     (case srt E transcription of
        None \<Rightarrow> \<lparr>raised = Some ConverterError, disk = fs, io = [Read file]\<rparr>
      | Some captions \<Rightarrow>
     (case output_file file of
        Inl e \<Rightarrow> \<lparr>raised = Some e, disk = fs, io = [Read file]\<rparr>
      | Inr out \<Rightarrow>
     (case locate E out of
        None \<Rightarrow> \<lparr>raised = Some OSError_write, disk = fs, io = [Read file]\<rparr>
      | Some k' \<Rightarrow>
     (if \<not> may_open_w E k'
        then \<lparr>raised = Some OSError_write, disk = fs, io = [Read file]\<rparr>
      else
     (case encode_utf8 E captions of
        None \<Rightarrow> \<lparr>raised = Some UnicodeEncodeError, disk = fs(k' \<mapsto> []),
                  io = [Read file, Truncate out]\<rparr>
      | Some data \<Rightarrow> \<lparr>raised = None, disk = fs(k' \<mapsto> data),
                  io = [Read file, Truncate out, Write out data]\<rparr>))))))))))"

text \<open>Line 20: the loop. An exception in the body leaves the loop and \<^verbatim>\<open>main\<close>.\<close>

fun for_files :: "('t, 'j, 'm, 'k) env \<Rightarrow> 'k disk \<Rightarrow> string list \<Rightarrow> 'k run" where
  "for_files E fs [] = \<lparr>raised = None, disk = fs, io = []\<rparr>"
| "for_files E fs (file # files) =
     (let r = process_file E fs file in
      case raised r of
        Some e \<Rightarrow> r
      | None \<Rightarrow> (let r' = for_files E (disk r) files in r'\<lparr>io := io r @ io r'\<rparr>))"

definition main :: "('t, 'j, 'm, 'k) env \<Rightarrow> 'k disk \<Rightarrow> string list \<Rightarrow> 'k run" where
  "main E fs argv =
     (case parse_arguments E argv of
        Inl e \<Rightarrow> \<lparr>raised = Some e, disk = fs, io = []\<rparr>
      | Inr file_globs \<Rightarrow>
          (let files = extend_globs E fs [] file_globs;
               r = for_files E fs files
           in r\<lparr>io := map Glob file_globs @ io r\<rparr>))"

section \<open>Observations and examples\<close>

subsection \<open>What a list of file operations says\<close>

text \<open>The files read, in order.\<close>

fun reads :: "event list \<Rightarrow> string list" where
  "reads [] = []"
| "reads (Read p # es) = p # reads es"
| "reads (e # es) = reads es"

text \<open>The completed writes, in order: path and data.\<close>

fun written :: "event list \<Rightarrow> (string \<times> bytes) list" where
  "written [] = []"
| "written (Write p d # es) = (p, d) # written es"
| "written (e # es) = written es"

text \<open>
  Every change of a file's contents, in order, with the file the path leads to: opening
  with \<^verbatim>\<open>w+\<close> leaves the file empty, a write leaves it holding the data.
\<close>

fun effects :: "('t, 'j, 'm, 'k) env \<Rightarrow> event list \<Rightarrow> ('k \<times> bytes) list" where
  "effects E [] = []"
| "effects E (Truncate p # es) = (key E p, []) # effects E es"
| "effects E (Write p d # es) = (key E p, d) # effects E es"
| "effects E (e # es) = effects E es"

subsection \<open>The output path as the specification words it\<close>

text \<open>The number of positions of \<open>s\<close> at which \<open>old\<close> occurs.\<close>

fun count_occ :: "string \<Rightarrow> string \<Rightarrow> nat" where
  "count_occ old [] = (if old = [] then 1 else 0)"
| "count_occ old (c # cs) = (if prefix old (c # cs) then 1 else 0) + count_occ old cs"


text \<open>
  The extension of a filename: it starts at the last dot, and a name without a dot, or
  whose last dot is its first or last character, has none.
\<close>

definition extension_of :: "string \<Rightarrow> string" where
  "extension_of fname =
     (case rfind CHR ''.'' fname of
        None \<Rightarrow> []
      | Some i \<Rightarrow> if 0 < i \<and> i < length fname - 1 then drop i fname else [])"

text \<open>
  A filename with its extension replaced; a name that has none gets the new one
  appended.
\<close>

definition replace_extension :: "string \<Rightarrow> string \<Rightarrow> string" where
  "replace_extension fname ext =
     (case rfind CHR ''.'' fname of
        None \<Rightarrow> fname @ ext
      | Some i \<Rightarrow> if 0 < i \<and> i < length fname - 1 then take i fname @ ext else fname @ ext)"


subsection \<open>What every JSON text starts with\<close>

text \<open>
  By the grammar of RFC 8259 a JSON text is a value between optional whitespace, and a
  value is an object, an array, a string, a number or one of the names
  \<^verbatim>\<open>true\<close>, \<^verbatim>\<open>false\<close> and \<^verbatim>\<open>null\<close>. So the first character after the
  whitespace is a brace, a bracket, a double quote, a minus sign, a digit, or one of the
  letters t, f and n: a text that does not start so is not valid JSON.
\<close>

definition may_begin_json :: "string \<Rightarrow> bool" where
  "may_begin_json s =
     (case dropWhile (\<lambda>c. c \<in> {CHR '' '', CHR 0x09, CHR 0x0A, CHR 0x0D}) s of
        [] \<Rightarrow> False
      | c # cs \<Rightarrow> c \<in> set ''{[-0123456789tfn'' \<or> c = CHR 0x22)"

subsection \<open>An example world\<close>

text \<open>
  A small world for evaluating the script. A file is the walk to it, printed from the
  working directory. \<^verbatim>\<open>*.json\<close> matches two fixed names when they exist, any other
  pattern matches itself when it exists; a byte \<open>0xFF\<close> makes a file undecodable;
  \<^verbatim>\<open>json.loads\<close> accepts what starts with a brace and, as CPython's does, the text
  \<^verbatim>\<open>NaN\<close>; the captions are the document behind a cue number.
\<close>

definition print_walk :: "bool \<times> string list \<Rightarrow> string" where
  "print_walk w = (case w of (absolute, steps) \<Rightarrow> (if absolute then ''/'' else []) @ join ''/'' steps)"

definition example_env :: "(string, string, string, string) env" where
  "example_env =
     \<lparr>argparse_options = (\<lambda>argv. Inl (SystemExit 2)),
      resolve = print_walk,
      glob_glob = (\<lambda>fs pat.
        if pat = ''*.json''
        then filter (\<lambda>p. fs (print_walk (path_steps p)) \<noteq> None) [''a.json'', ''b_response.json'']
        else filter (\<lambda>p. fs (print_walk (path_steps p)) \<noteq> None) [pat]),
      decode_utf8 = (\<lambda>b. if CHR 0xFF \<in> set b then None else Some b),
      json_loads = (\<lambda>t. if take 1 t = ''{'' \<or> t = ''NaN'' then Inr t else Inl JSONDecodeError),
      DeepgramConverter = Some,
      srt = (\<lambda>m. Some (''1 '' @ m)),
      may_open_w = (\<lambda>k. True),
      encode_utf8 = Some\<rparr>"

section \<open>Properties\<close>

subsection \<open>Auxiliary facts about paths\<close>

lemma join_snoc:
  "t \<noteq> [] \<Longrightarrow> join sep (butlast t @ [last t @ s]) = join sep t @ s"
  by (induction sep t rule: join.induct) auto

lemma join_nonempty:
  "t \<noteq> [] \<Longrightarrow> last t \<noteq> [] \<Longrightarrow> join sep t \<noteq> []"
  by (induction sep t rule: join.induct) auto

text \<open>The example world, call by call, and the paths and files of the examples.\<close>

lemma example_calls:
  "glob_glob example_env = (\<lambda>fs pat.
        if pat = ''*.json''
        then filter (\<lambda>p. fs (print_walk (path_steps p)) \<noteq> None) [''a.json'', ''b_response.json'']
        else filter (\<lambda>p. fs (print_walk (path_steps p)) \<noteq> None) [pat])"
  "decode_utf8 example_env = (\<lambda>b. if CHR 0xFF \<in> set b then None else Some b)"
  "json_loads example_env =
     (\<lambda>t. if take 1 t = ''{'' \<or> t = ''NaN'' then Inr t else Inl JSONDecodeError)"
  "DeepgramConverter example_env = Some"
  "srt example_env = (\<lambda>m. Some (''1 '' @ m))"
  "may_open_w example_env = (\<lambda>k. True)"
  "encode_utf8 example_env = Some"
  by (simp_all add: example_env_def)

lemma example_walks:
  "print_walk (path_steps ''a.json'') = ''a.json''"
  "print_walk (path_steps ''b_response.json'') = ''b_response.json''"
  "print_walk (path_steps ''a_response.json'') = ''a_response.json''"
  "print_walk (path_steps ''bad.json'') = ''bad.json''"
  "print_walk (path_steps ''c.json'') = ''c.json''"
  "print_walk (path_steps ''x.srt'') = ''x.srt''"
  "print_walk (path_steps ''./x.srt'') = ''x.srt''"
  by (simp_all add: print_walk_def path_steps_def)

lemma example_locate:
  "locate example_env ''a.json'' = Some ''a.json''"
  "locate example_env ''b_response.json'' = Some ''b_response.json''"
  "locate example_env ''a_response.json'' = Some ''a_response.json''"
  "locate example_env ''bad.json'' = Some ''bad.json''"
  "locate example_env ''bin.json'' = Some ''bin.json''"
  "locate example_env ''c.json'' = Some ''c.json''"
  "locate example_env ''nan.json'' = Some ''nan.json''"
  "locate example_env ''x.srt'' = Some ''x.srt''"
  "locate example_env ''./x.srt'' = Some ''x.srt''"
  "locate example_env ''a.srt'' = Some ''a.srt''"
  "locate example_env ''b.srt'' = Some ''b.srt''"
  "locate example_env ''nan.srt'' = Some ''nan.srt''"
  by (simp_all add: locate_def key_def filename_of_def print_walk_def path_steps_def
      example_env_def)

lemma example_outputs:
  "output_file ''a.json'' = Inr ''a.srt''"
  "output_file ''b_response.json'' = Inr ''b.srt''"
  "output_file ''bad.json'' = Inr ''bad.srt''"
  "output_file ''a_response.json'' = Inr ''a.srt''"
  "output_file ''nan.json'' = Inr ''nan.srt''"
  "output_file ''x.srt'' = Inr ''x.srt''"
  "output_file ''./x.srt'' = Inr ''x.srt''"
  by (simp_all add: output_file_def Path_def splitroot_def with_suffix_def name_def
      suffix_of_def str_of_def)

subsection \<open>Usage error\<close>

text \<open>
  C6. Without any glob argument the program ends with the usage error of argparse,
  exit status 2; no glob is expanded, no file is read or written, and the file system is
  as it was.
\<close>

theorem C6_no_arguments:
  "main E fs [] = \<lparr>raised = Some (SystemExit 2), disk = fs, io = []\<rparr>"
  by (simp add: main_def parse_arguments_def)

subsection \<open>The files processed\<close>

lemma extend_globs_concat:
  "extend_globs E fs files file_globs = files @ concat (map (glob_glob E fs) file_globs)"
  by (induction file_globs arbitrary: files) auto

lemma reads_append: "reads (xs @ ys) = reads xs @ reads ys"
  by (induction xs rule: reads.induct) auto

lemma reads_Glob: "reads (map Glob gs) = []"
  by (induction gs) auto

lemma process_file_reads:
  "raised (process_file E fs file) = None \<Longrightarrow> reads (io (process_file E fs file)) = [file]"
  by (auto simp: process_file_def split: option.splits sum.splits if_splits)

lemma for_files_reads:
  "raised (for_files E fs files) = None \<Longrightarrow> reads (io (for_files E fs files)) = files"
proof (induction files arbitrary: fs)
  case Nil
  then show ?case by simp
next
  case (Cons f fs_rest)
  then show ?case
    by (auto simp: Let_def reads_append process_file_reads split: option.splits)
qed

text \<open>
  C3. The list of files is the concatenation of the matches of each glob, in the order
  of the arguments, neither sorted nor deduplicated; a run that ends without an exception
  reads exactly these files in this order, so a file is read as many times as the globs
  match it.
\<close>

theorem C3_files_in_glob_order:
  assumes "parse_arguments E argv = Inr file_globs"
    and "raised (main E fs argv) = None"
  shows "extend_globs E fs [] file_globs = concat (map (glob_glob E fs) file_globs) \<and>
         reads (io (main E fs argv)) = concat (map (glob_glob E fs) file_globs) \<and>
         count_list (reads (io (main E fs argv))) f =
           (\<Sum>g\<leftarrow>file_globs. count_list (glob_glob E fs g) f)"
proof -
  have files: "extend_globs E fs [] file_globs = concat (map (glob_glob E fs) file_globs)"
    by (simp add: extend_globs_concat)
  from assms have "raised (for_files E fs (extend_globs E fs [] file_globs)) = None"
    by (simp add: main_def Let_def)
  then have "reads (io (for_files E fs (extend_globs E fs [] file_globs)))
      = extend_globs E fs [] file_globs"
    by (rule for_files_reads)
  with assms(1) have r: "reads (io (main E fs argv)) = concat (map (glob_glob E fs) file_globs)"
    by (simp add: main_def Let_def reads_append reads_Glob files)
  have "count_list (concat xss) f = (\<Sum>xs\<leftarrow>xss. count_list xs f)" for xss :: "string list list"
    by (induction xss) auto
  then have "count_list (concat (map (glob_glob E fs) file_globs)) f =
      (\<Sum>g\<leftarrow>file_globs. count_list (glob_glob E fs g) f)"
    by (simp add: comp_def)
  with files r show ?thesis by simp
qed

theorem C3_files_in_glob_order_witness:
  "parse_arguments example_env [''*.json'', ''a.json''] = Inr [''*.json'', ''a.json''] \<and>
   raised (main example_env [''a.json'' \<mapsto> ''{a}'', ''b_response.json'' \<mapsto> ''{b}'']
     [''*.json'', ''a.json'']) = None \<and>
   reads (io (main example_env [''a.json'' \<mapsto> ''{a}'', ''b_response.json'' \<mapsto> ''{b}'']
     [''*.json'', ''a.json''])) = [''a.json'', ''b_response.json'', ''a.json''] \<and>
   count_list (reads (io (main example_env [''a.json'' \<mapsto> ''{a}'', ''b_response.json'' \<mapsto> ''{b}'']
     [''*.json'', ''a.json'']))) ''a.json'' = 2"
proof -
  let ?fs = "[''a.json'' \<mapsto> ''{a}'', ''b_response.json'' \<mapsto> ''{b}'']"
  let ?argv = "[''*.json'', ''a.json'']"
  have p: "parse_arguments example_env ?argv = Inr ?argv"
    by (simp add: parse_arguments_def)
  have files: "extend_globs example_env ?fs [] ?argv = [''a.json'', ''b_response.json'', ''a.json'']"
    by (simp add: example_calls example_walks)
  have run: "raised (for_files example_env ?fs [''a.json'', ''b_response.json'', ''a.json'']) = None"
    by (simp add: process_file_def example_outputs example_locate example_calls)
  have m: "raised (main example_env ?fs ?argv) = None"
    using files run by (simp add: main_def p Let_def)
  have g: "concat (map (glob_glob example_env ?fs) ?argv) = [''a.json'', ''b_response.json'', ''a.json'']"
    by (simp add: example_calls example_walks)
  have s: "(\<Sum>g\<leftarrow>?argv. count_list (glob_glob example_env ?fs g) ''a.json'') = 2"
    by (simp add: example_calls example_walks)
  from C3_files_in_glob_order [OF p m, of "''a.json''"] p m g s show ?thesis
    by simp
qed

subsection \<open>Files that cannot be decoded or parsed\<close>

text \<open>
  C4 (amended). When the contents of a file decode and \<^verbatim>\<open>json.loads\<close> raises an
  exception on them, processing the file raises that exception; the file was read,
  nothing was opened for writing, the file system is unchanged, and the loop ends with
  that exception.
\<close>

theorem C4_json_loads_raises:
  assumes "locate E file = Some k"
    and "fs k = Some raw"
    and "decode_utf8 E raw = Some file_data"
    and "json_loads E file_data = Inl e"
  shows "process_file E fs file = \<lparr>raised = Some e, disk = fs, io = [Read file]\<rparr> \<and>
         for_files E fs (file # files) = \<lparr>raised = Some e, disk = fs, io = [Read file]\<rparr>"
  using assms by (simp add: process_file_def)

theorem C4_json_loads_raises_witness:
  "locate example_env ''bad.json'' = Some ''bad.json'' \<and>
   [''bad.json'' \<mapsto> ''oops''] ''bad.json'' = Some ''oops'' \<and>
   decode_utf8 example_env ''oops'' = Some ''oops'' \<and>
   json_loads example_env ''oops'' = Inl JSONDecodeError \<and>
   for_files example_env [''bad.json'' \<mapsto> ''oops''] [''bad.json'', ''a.json''] =
     \<lparr>raised = Some JSONDecodeError, disk = [''bad.json'' \<mapsto> ''oops''], io = [Read ''bad.json'']\<rparr>"
proof -
  have l: "locate example_env ''bad.json'' = Some ''bad.json''"
    by (rule example_locate)
  have a: "[''bad.json'' \<mapsto> ''oops''] ''bad.json'' = Some ''oops''"
    by simp
  have b: "decode_utf8 example_env ''oops'' = Some ''oops''"
    by (simp add: example_calls)
  have c: "json_loads example_env ''oops'' = Inl JSONDecodeError"
    by (simp add: example_calls)
  from C4_json_loads_raises [where fs = "[''bad.json'' \<mapsto> ''oops'']" and files = "[''a.json'']",
      OF l a b c] l a b c
  show ?thesis
    by simp
qed

text \<open>
  \<^verbatim>\<open>json.loads\<close> accepts texts that are not valid JSON: \<^verbatim>\<open>NaN\<close> does not start as
  a JSON text does, and a file holding it is converted and written.
\<close>

theorem C4_nan_accepted_counterexample:
  "\<not> may_begin_json ''NaN'' \<and>
   decode_utf8 example_env ''NaN'' = Some ''NaN'' \<and>
   process_file example_env [''nan.json'' \<mapsto> ''NaN''] ''nan.json'' =
     \<lparr>raised = None, disk = [''nan.json'' \<mapsto> ''NaN'', ''nan.srt'' \<mapsto> ''1 NaN''],
      io = [Read ''nan.json'', Truncate ''nan.srt'', Write ''nan.srt'' ''1 NaN'']\<rparr>"
  by (simp add: may_begin_json_def process_file_def example_outputs example_locate example_calls)

text \<open>
  C5. When the bytes of a file are not valid UTF-8, processing the file raises the
  decoding exception; nothing was opened for writing, the file system is unchanged, and
  the loop ends with that exception.
\<close>

theorem C5_invalid_utf8:
  assumes "locate E file = Some k"
    and "fs k = Some raw"
    and "decode_utf8 E raw = None"
  shows "process_file E fs file = \<lparr>raised = Some UnicodeDecodeError, disk = fs, io = [Read file]\<rparr> \<and>
         for_files E fs (file # files) = \<lparr>raised = Some UnicodeDecodeError, disk = fs, io = [Read file]\<rparr>"
  using assms by (simp add: process_file_def)

theorem C5_invalid_utf8_witness:
  "locate example_env ''bin.json'' = Some ''bin.json'' \<and>
   [''bin.json'' \<mapsto> [CHR 0xFF, CHR 0xFE]] ''bin.json'' = Some [CHR 0xFF, CHR 0xFE] \<and>
   decode_utf8 example_env [CHR 0xFF, CHR 0xFE] = None \<and>
   for_files example_env [''bin.json'' \<mapsto> [CHR 0xFF, CHR 0xFE]] [''bin.json'', ''a.json''] =
     \<lparr>raised = Some UnicodeDecodeError, disk = [''bin.json'' \<mapsto> [CHR 0xFF, CHR 0xFE]],
      io = [Read ''bin.json'']\<rparr>"
proof -
  have l: "locate example_env ''bin.json'' = Some ''bin.json''"
    by (rule example_locate)
  have a: "[''bin.json'' \<mapsto> [CHR 0xFF, CHR 0xFE]] ''bin.json'' = Some [CHR 0xFF, CHR 0xFE]"
    by simp
  have b: "decode_utf8 example_env [CHR 0xFF, CHR 0xFE] = None"
    by (simp add: example_calls)
  from C5_invalid_utf8 [where fs = "[''bin.json'' \<mapsto> [CHR 0xFF, CHR 0xFE]]"
      and files = "[''a.json'']", OF l a b] l a b
  show ?thesis
    by simp
qed

subsection \<open>The first exception ends the batch\<close>

lemma for_files_append:
  "for_files E fs (xs @ ys) =
     (let r = for_files E fs xs in
      case raised r of
        Some e \<Rightarrow> r
      | None \<Rightarrow> (let r' = for_files E (disk r) ys in r'\<lparr>io := io r @ io r'\<rparr>))"
  by (induction xs arbitrary: fs) (auto simp: Let_def split: option.splits)

text \<open>
  C7. When the files before position \<open>k\<close> are processed without an exception and the
  file at position \<open>k\<close> raises one, whatever its kind, \<^verbatim>\<open>main\<close> ends with that
  exception; the file system and the file operations are those reached in the failing
  file, so no later file is read, converted or written.
\<close>

theorem C7_abort_at_first_error:
  assumes "parse_arguments E argv = Inr file_globs"
    and "extend_globs E fs [] file_globs = files"
    and "k < length files"
    and "for_files E fs (take k files) = \<lparr>raised = None, disk = fs_k, io = io_k\<rparr>"
    and "raised (process_file E fs_k (files ! k)) = Some e"
  shows "main E fs argv =
           \<lparr>raised = Some e,
            disk = disk (process_file E fs_k (files ! k)),
            io = map Glob file_globs @ io_k @ io (process_file E fs_k (files ! k))\<rparr>"
proof -
  from assms(3) have "files = take k files @ (files ! k) # drop (Suc k) files"
    by (simp add: id_take_nth_drop)
  then have "for_files E fs files = for_files E fs (take k files @ (files ! k) # drop (Suc k) files)"
    by simp
  also have "\<dots> = (process_file E fs_k (files ! k))\<lparr>io := io_k @ io (process_file E fs_k (files ! k))\<rparr>"
    using assms(4,5) by (simp add: for_files_append Let_def)
  finally show ?thesis
    using assms(1,2,5) by (simp add: main_def Let_def)
qed

theorem C7_abort_at_first_error_witness:
  "main example_env [''a.json'' \<mapsto> ''{a}'', ''bad.json'' \<mapsto> ''oops'', ''c.json'' \<mapsto> ''{c}'']
     [''a.json'', ''bad.json'', ''c.json''] =
   \<lparr>raised = Some JSONDecodeError,
    disk = [''a.json'' \<mapsto> ''{a}'', ''bad.json'' \<mapsto> ''oops'', ''c.json'' \<mapsto> ''{c}'',
            ''a.srt'' \<mapsto> ''1 {a}''],
    io = [Glob ''a.json'', Glob ''bad.json'', Glob ''c.json'',
          Read ''a.json'', Truncate ''a.srt'', Write ''a.srt'' ''1 {a}'', Read ''bad.json'']\<rparr>"
proof -
  let ?fs = "[''a.json'' \<mapsto> ''{a}'', ''bad.json'' \<mapsto> ''oops'', ''c.json'' \<mapsto> ''{c}'']"
  let ?argv = "[''a.json'', ''bad.json'', ''c.json'']"
  let ?fs1 = "?fs(''a.srt'' \<mapsto> ''1 {a}'')"
  have p: "parse_arguments example_env ?argv = Inr ?argv"
    by (simp add: parse_arguments_def)
  have g: "extend_globs example_env ?fs [] ?argv = ?argv"
    by (simp add: example_calls example_walks)
  have k: "(1::nat) < length ?argv"
    by simp
  have pre: "for_files example_env ?fs (take 1 ?argv) =
      \<lparr>raised = None, disk = ?fs1,
       io = [Read ''a.json'', Truncate ''a.srt'', Write ''a.srt'' ''1 {a}'']\<rparr>"
    by (simp add: process_file_def example_outputs example_locate example_calls)
  have bad: "process_file example_env ?fs1 (?argv ! 1) =
      \<lparr>raised = Some JSONDecodeError, disk = ?fs1, io = [Read ''bad.json'']\<rparr>"
    by (simp add: process_file_def example_locate example_calls)
  then have r: "raised (process_file example_env ?fs1 (?argv ! 1)) = Some JSONDecodeError"
    by simp
  from C7_abort_at_first_error [OF p g k pre r] bad show ?thesis
    by simp
qed

subsection \<open>Every output path ends in \<^verbatim>\<open>.srt\<close>\<close>

lemma rfind_append_last:
  "c \<notin> set ys \<Longrightarrow> rfind c (xs @ c # ys) = Some (length xs)"
proof (induction xs)
  case Nil
  have "rfind c ys = None" using Nil by (induction ys) auto
  then show ?case by simp
next
  case (Cons x xs)
  then show ?case by simp
qed

lemma rfind_bound: "rfind c s = Some i \<Longrightarrow> i < length s"
  by (induction s arbitrary: i) (auto split: option.splits if_splits)

lemma suffix_of_srt:
  assumes "tail P \<noteq> []" and "last (tail P) = stem @ ''.srt''" and "stem \<noteq> []"
  shows "suffix_of P = ''.srt''"
proof -
  from assms have n: "name P = stem @ CHR ''.'' # ''srt''"
    by (simp add: name_def)
  have "rfind CHR ''.'' (stem @ CHR ''.'' # ''srt'') = Some (length stem)"
    by (rule rfind_append_last) simp
  with n assms(3) show ?thesis
    by (simp add: suffix_of_def)
qed

lemma with_suffix_srt_name:
  assumes "with_suffix P ''.srt'' = Inr Q"
  shows "\<exists>stem. stem \<noteq> [] \<and> tail Q = butlast (tail P) @ [stem @ ''.srt''] \<and> root Q = root P"
proof -
  from assms have n: "name P \<noteq> []"
    by (auto simp: with_suffix_def split: if_splits)
  show ?thesis
  proof (cases "suffix_of P = []")
    case True
    with assms n show ?thesis
      by (auto simp: with_suffix_def)
  next
    case False
    then obtain i where i: "rfind CHR ''.'' (name P) = Some i" "0 < i" "i < length (name P) - 1"
      and s: "suffix_of P = drop i (name P)"
      by (auto simp: suffix_of_def split: option.splits if_splits)
    then have "take (length (name P) - length (suffix_of P)) (name P) \<noteq> []"
      by auto
    with assms n False show ?thesis
      by (auto simp: with_suffix_def)
  qed
qed

lemma with_suffix_srt_suffix:
  assumes "with_suffix P ''.srt'' = Inr Q"
  shows "suffix_of Q = ''.srt''"
proof -
  from with_suffix_srt_name [OF assms] obtain stem where
    "stem \<noteq> []" "tail Q = butlast (tail P) @ [stem @ ''.srt'']"
    by blast
  then show ?thesis
    by (intro suffix_of_srt [where stem = stem]) auto
qed

lemma join_snoc_suffix: "suffix x (join sep (t @ [x]))"
  by (induction sep t rule: join.induct) (auto simp: suffix_append  intro: suffix_appendI)

lemma output_file_ends_srt:
  assumes "output_file file = Inr out"
  shows "suffix ''.srt'' out"
proof -
  from assms obtain Q where q: "with_suffix (Path (str_replace ''_response'' '''' file)) ''.srt'' = Inr Q"
    and o: "out = str_of Q"
    by (auto simp: output_file_def split: sum.splits)
  from with_suffix_srt_name [OF q] obtain stem where
    t: "tail Q = butlast (tail (Path (str_replace ''_response'' '''' file))) @ [stem @ ''.srt'']"
    by blast
  have "suffix (stem @ ''.srt'') (join ''/'' (tail Q))"
    unfolding t by (rule join_snoc_suffix)
  then have "suffix ''.srt'' (join ''/'' (tail Q))"
    by (meson suffix_order.trans suffixI)
  then have "suffix ''.srt'' (root Q @ join ''/'' (tail Q))"
    by (rule suffix_appendI)
  moreover from this have "root Q @ join ''/'' (tail Q) \<noteq> []"
    by auto
  ultimately show ?thesis
    by (auto simp: o str_of_def Let_def)
qed

subsection \<open>One write for every matched file\<close>

lemma written_append: "written (xs @ ys) = written xs @ written ys"
  by (induction xs rule: written.induct) auto

lemma written_Glob: "written (map Glob gs) = []"
  by (induction gs) auto

lemma process_file_written:
  assumes "raised (process_file E fs file) = None"
  shows "\<exists>out data. output_file file = Inr out \<and>
           written (io (process_file E fs file)) = [(out, data)] \<and>
           disk (process_file E fs file) = fs(key E out \<mapsto> data)"
  using assms
  by (auto simp: process_file_def locate_def split: option.splits sum.splits if_splits)

lemma for_files_written:
  assumes "raised (for_files E fs files) = None"
  shows "map (Inr \<circ> fst) (written (io (for_files E fs files))) = map output_file files \<and>
         disk (for_files E fs files) =
           fs ++ map_of (rev (map (apfst (key E)) (written (io (for_files E fs files)))))"
  using assms
proof (induction files arbitrary: fs)
  case Nil
  then show ?case by simp
next
  case (Cons f fs_rest)
  let ?r = "process_file E fs f"
  let ?r' = "for_files E (disk ?r) fs_rest"
  from Cons.prems have r: "raised ?r = None"
    by (auto simp: Let_def split: option.splits)
  with Cons.prems have rest: "raised ?r' = None"
    by (simp add: Let_def)
  from process_file_written [OF r] obtain out data where
    o: "output_file f = Inr out" and w: "written (io ?r) = [(out, data)]"
    and d: "disk ?r = fs(key E out \<mapsto> data)"
    by blast
  from Cons.IH [OF rest]
  have ih1: "map (Inr \<circ> fst) (written (io ?r')) = map output_file fs_rest"
    and ih2: "disk ?r' = disk ?r ++ map_of (rev (map (apfst (key E)) (written (io ?r'))))"
    by blast+
  have ff: "for_files E fs (f # fs_rest) = ?r'\<lparr>io := io ?r @ io ?r'\<rparr>"
    using r by (simp add: Let_def)
  have W: "written (io (for_files E fs (f # fs_rest))) = (out, data) # written (io ?r')"
    unfolding ff by (simp add: written_append w)
  have "fs ++ map_of (rev (map (apfst (key E)) ((out, data) # written (io ?r')))) =
      fs(key E out \<mapsto> data) ++ map_of (rev (map (apfst (key E)) (written (io ?r'))))"
    by (rule ext) (simp add: map_add_def split: option.splits)
  with ih2 d have D: "disk (for_files E fs (f # fs_rest)) =
      fs ++ map_of (rev (map (apfst (key E)) ((out, data) # written (io ?r'))))"
    unfolding ff by simp
  from ih1 o have "map (Inr \<circ> fst) ((out, data) # written (io ?r')) = map output_file (f # fs_rest)"
    by simp
  with D show ?case
    unfolding W by blast
qed

text \<open>
  C2 (amended). When \<^verbatim>\<open>main\<close> ends without an exception, it has completed exactly
  one write for every matched file, in the order of the files and each at the output path
  derived from its file, and every path written ends in \<^verbatim>\<open>.srt\<close>. The file system
  it leaves is the one it found, except that every file a written path leads to holds the
  data of the last write through a path leading to it: derived paths that lead to one
  file share that file, which keeps the later write.
\<close>

theorem C2_one_write_per_match:
  assumes "parse_arguments E argv = Inr file_globs"
    and "raised (main E fs argv) = None"
  shows "length (written (io (main E fs argv))) = length (extend_globs E fs [] file_globs) \<and>
         map (Inr \<circ> fst) (written (io (main E fs argv))) =
           map output_file (extend_globs E fs [] file_globs) \<and>
         disk (main E fs argv) =
           fs ++ map_of (rev (map (apfst (key E)) (written (io (main E fs argv))))) \<and>
         (\<forall>p \<in> fst ` set (written (io (main E fs argv))). suffix ''.srt'' p)"
proof -
  let ?files = "extend_globs E fs [] file_globs"
  from assms have ok: "raised (for_files E fs ?files) = None"
    by (simp add: main_def Let_def)
  from assms(1) have w: "written (io (main E fs argv)) = written (io (for_files E fs ?files))"
    and d: "disk (main E fs argv) = disk (for_files E fs ?files)"
    by (simp_all add: main_def Let_def written_append written_Glob)
  from for_files_written [OF ok]
  have m: "map (Inr \<circ> fst) (written (io (for_files E fs ?files))) = map output_file ?files"
    and s: "disk (for_files E fs ?files) =
      fs ++ map_of (rev (map (apfst (key E)) (written (io (for_files E fs ?files)))))"
    by blast+
  from m have l: "length (written (io (for_files E fs ?files))) = length ?files"
    by (metis length_map)
  have e: "suffix ''.srt'' p" if "p \<in> fst ` set (written (io (for_files E fs ?files)))" for p
  proof -
    from that have "(Inr p :: error + string) \<in>
        set (map (Inr \<circ> fst) (written (io (for_files E fs ?files))))"
      by force
    then have "Inr p \<in> set (map output_file ?files)"
      unfolding m .
    then obtain f where "output_file f = Inr p"
      by auto
    then show ?thesis
      by (rule output_file_ends_srt)
  qed
  from l m s e show ?thesis
    unfolding w d by blast
qed

theorem C2_one_write_per_match_witness:
  "parse_arguments example_env [''*.json''] = Inr [''*.json''] \<and>
   raised (main example_env [''a.json'' \<mapsto> ''{a}'', ''b_response.json'' \<mapsto> ''{b}''] [''*.json'']) = None \<and>
   extend_globs example_env [''a.json'' \<mapsto> ''{a}'', ''b_response.json'' \<mapsto> ''{b}''] [] [''*.json'']
     = [''a.json'', ''b_response.json''] \<and>
   written (io (main example_env [''a.json'' \<mapsto> ''{a}'', ''b_response.json'' \<mapsto> ''{b}''] [''*.json'']))
     = [(''a.srt'', ''1 {a}''), (''b.srt'', ''1 {b}'')]"
proof -
  let ?fs = "[''a.json'' \<mapsto> ''{a}'', ''b_response.json'' \<mapsto> ''{b}'']"
  let ?argv = "[''*.json'']"
  have p: "parse_arguments example_env ?argv = Inr ?argv"
    by (simp add: parse_arguments_def)
  have g: "extend_globs example_env ?fs [] ?argv = [''a.json'', ''b_response.json'']"
    by (simp add: example_calls example_walks)
  have run: "for_files example_env ?fs [''a.json'', ''b_response.json''] =
     \<lparr>raised = None, disk = ?fs(''a.srt'' \<mapsto> ''1 {a}'', ''b.srt'' \<mapsto> ''1 {b}''),
      io = [Read ''a.json'', Truncate ''a.srt'', Write ''a.srt'' ''1 {a}'',
            Read ''b_response.json'', Truncate ''b.srt'', Write ''b.srt'' ''1 {b}'']\<rparr>"
    by (simp add: process_file_def example_outputs example_locate example_calls)
  have m: "raised (main example_env ?fs ?argv) = None"
    using g run by (simp add: main_def p Let_def)
  have w: "written (io (main example_env ?fs ?argv)) = [(''a.srt'', ''1 {a}''), (''b.srt'', ''1 {b}'')]"
    using g run by (simp add: main_def p Let_def)
  from C2_one_write_per_match [OF p m] p m g w show ?thesis
    by simp
qed

text \<open>
  Two matched files, \<^verbatim>\<open>a.json\<close> and \<^verbatim>\<open>a_response.json\<close>, and one output file:
  both are written to \<^verbatim>\<open>a.srt\<close>, which keeps the second.
\<close>

theorem C2_shared_output_counterexample:
  "extend_globs example_env [''a.json'' \<mapsto> ''{a}'', ''a_response.json'' \<mapsto> ''{r}''] []
     [''a.json'', ''a_response.json''] = [''a.json'', ''a_response.json''] \<and>
   raised (main example_env [''a.json'' \<mapsto> ''{a}'', ''a_response.json'' \<mapsto> ''{r}'']
     [''a.json'', ''a_response.json'']) = None \<and>
   map fst (written (io (main example_env [''a.json'' \<mapsto> ''{a}'', ''a_response.json'' \<mapsto> ''{r}'']
     [''a.json'', ''a_response.json'']))) = [''a.srt'', ''a.srt''] \<and>
   disk (main example_env [''a.json'' \<mapsto> ''{a}'', ''a_response.json'' \<mapsto> ''{r}'']
     [''a.json'', ''a_response.json'']) =
     [''a.json'' \<mapsto> ''{a}'', ''a_response.json'' \<mapsto> ''{r}'', ''a.srt'' \<mapsto> ''1 {r}'']"
proof -
  let ?fs = "[''a.json'' \<mapsto> ''{a}'', ''a_response.json'' \<mapsto> ''{r}'']"
  let ?argv = "[''a.json'', ''a_response.json'']"
  have p: "parse_arguments example_env ?argv = Inr ?argv"
    by (simp add: parse_arguments_def)
  have g: "extend_globs example_env ?fs [] ?argv = ?argv"
    by (simp add: example_calls example_walks)
  have run: "for_files example_env ?fs ?argv =
     \<lparr>raised = None, disk = ?fs(''a.srt'' \<mapsto> ''1 {r}''),
      io = [Read ''a.json'', Truncate ''a.srt'', Write ''a.srt'' ''1 {a}'',
            Read ''a_response.json'', Truncate ''a.srt'', Write ''a.srt'' ''1 {r}'']\<rparr>"
    by (simp add: process_file_def example_outputs example_locate example_calls)
  have m: "main example_env ?fs ?argv =
      (for_files example_env ?fs ?argv)\<lparr>io := map Glob ?argv @ io (for_files example_env ?fs ?argv)\<rparr>"
    using g by (simp add: main_def p Let_def)
  show ?thesis
    unfolding m run g by (simp add: written_append)
qed

subsection \<open>Running twice\<close>

lemma effects_append: "effects E (xs @ ys) = effects E xs @ effects E ys"
  by (induction E xs rule: effects.induct) auto

lemma effects_Glob: "effects E (map Glob gs) = []"
  by (induction gs) auto

lemma process_file_disk:
  "disk (process_file E fs file) = fs ++ map_of (rev (effects E (io (process_file E fs file))))"
  by (auto simp: process_file_def locate_def split: option.splits sum.splits if_splits)

lemma for_files_disk:
  "disk (for_files E fs files) = fs ++ map_of (rev (effects E (io (for_files E fs files))))"
proof (induction files arbitrary: fs)
  case Nil
  then show ?case by simp
next
  case (Cons f fs_rest)
  show ?case
  proof (cases "raised (process_file E fs f)")
    case None
    then show ?thesis
      using Cons.IH [of "disk (process_file E fs f)"] process_file_disk [of E fs f]
      by (simp add: Let_def effects_append)
  next
    case (Some e)
    then show ?thesis
      using process_file_disk [of E fs f] by (simp add: Let_def)
  qed
qed

lemma process_file_same_input:
  assumes "fs' (key E file) = fs (key E file)"
  shows "raised (process_file E fs' file) = raised (process_file E fs file) \<and>
         io (process_file E fs' file) = io (process_file E fs file)"
  using assms
  by (auto simp: process_file_def locate_def split: option.splits sum.splits if_splits)

lemma for_files_same_inputs:
  assumes "\<forall>f \<in> S. fs' (key E f) = fs (key E f)" and "set files \<subseteq> S"
  shows "raised (for_files E fs' files) = raised (for_files E fs files) \<and>
         io (for_files E fs' files) = io (for_files E fs files)"
  using assms
proof (induction files arbitrary: fs fs')
  case Nil
  then show ?case by simp
next
  case (Cons f fs_rest)
  from Cons.prems have "fs' (key E f) = fs (key E f)"
    by simp
  then have same: "raised (process_file E fs' f) = raised (process_file E fs f)"
    "io (process_file E fs' f) = io (process_file E fs f)"
    using process_file_same_input by blast+
  let ?M = "map_of (rev (effects E (io (process_file E fs f))))"
  have d: "disk (process_file E fs f) = fs ++ ?M" "disk (process_file E fs' f) = fs' ++ ?M"
    using process_file_disk [of E fs f] process_file_disk [of E fs' f] same(2) by simp_all
  from Cons.prems(1) have agree: "\<forall>g \<in> S. (fs' ++ ?M) (key E g) = (fs ++ ?M) (key E g)"
    by (auto simp: map_add_def split: option.splits)
  from Cons.prems(2) have sub: "set fs_rest \<subseteq> S"
    by simp
  from Cons.IH [OF agree sub] same d show ?case
    by (simp add: Let_def split: option.splits)
qed

text \<open>
  C8 (amended). When the second run matches the same files as the first and the first run
  has left the contents of every matched file as they were, the second run ends as the
  first did, performs the same file operations and leaves every file byte for byte as the
  first run left it. A file the run wrote holds the data of the last operation on it and
  nothing of its earlier contents: the file system after the run is the one before,
  overridden by the run's truncations and writes.
\<close>

theorem C8_second_run_identical:
  assumes "parse_arguments E argv = Inr file_globs"
    and "extend_globs E (disk (main E fs argv)) [] file_globs = extend_globs E fs [] file_globs"
    and "\<forall>f \<in> set (extend_globs E fs [] file_globs).
           disk (main E fs argv) (key E f) = fs (key E f)"
  shows "raised (main E (disk (main E fs argv)) argv) = raised (main E fs argv) \<and>
         io (main E (disk (main E fs argv)) argv) = io (main E fs argv) \<and>
         disk (main E (disk (main E fs argv)) argv) = disk (main E fs argv) \<and>
         disk (main E fs argv) = fs ++ map_of (rev (effects E (io (main E fs argv))))"
proof -
  let ?files = "extend_globs E fs [] file_globs"
  let ?r1 = "for_files E fs ?files"
  let ?r2 = "for_files E (disk ?r1) ?files"
  let ?M = "map_of (rev (effects E (io ?r1)))"
  from assms(1) have m1: "raised (main E fs argv) = raised ?r1"
    "io (main E fs argv) = map Glob file_globs @ io ?r1" "disk (main E fs argv) = disk ?r1"
    by (simp_all add: main_def Let_def)
  from assms(1,2) m1(3) have m2: "raised (main E (disk ?r1) argv) = raised ?r2"
    "io (main E (disk ?r1) argv) = map Glob file_globs @ io ?r2"
    "disk (main E (disk ?r1) argv) = disk ?r2"
    by (simp_all add: main_def Let_def)
  from assms(3) m1(3) have "\<forall>f \<in> set ?files. disk ?r1 (key E f) = fs (key E f)"
    by simp
  then have same: "raised ?r2 = raised ?r1" "io ?r2 = io ?r1"
    using for_files_same_inputs [of "set ?files" "disk ?r1" E fs ?files] by simp_all
  have d1: "disk ?r1 = fs ++ ?M"
    by (rule for_files_disk)
  have "disk ?r2 = disk ?r1 ++ ?M"
    using for_files_disk [of E "disk ?r1" ?files] same(2) by simp
  also have "\<dots> = disk ?r1"
    unfolding d1 by (rule ext) (simp add: map_add_def split: option.splits)
  finally have d2: "disk ?r2 = disk ?r1" .
  from m1 m2 same d1 d2 show ?thesis
    by (simp add: effects_append effects_Glob)
qed

theorem C8_second_run_identical_witness:
  "raised (main example_env
     (disk (main example_env [''a.json'' \<mapsto> ''{a}'', ''b_response.json'' \<mapsto> ''{b}''] [''*.json'']))
     [''*.json'']) = None \<and>
   disk (main example_env
     (disk (main example_env [''a.json'' \<mapsto> ''{a}'', ''b_response.json'' \<mapsto> ''{b}''] [''*.json'']))
     [''*.json'']) =
     [''a.json'' \<mapsto> ''{a}'', ''b_response.json'' \<mapsto> ''{b}'', ''a.srt'' \<mapsto> ''1 {a}'',
      ''b.srt'' \<mapsto> ''1 {b}'']"
proof -
  let ?fs = "[''a.json'' \<mapsto> ''{a}'', ''b_response.json'' \<mapsto> ''{b}'']"
  let ?fs1 = "?fs(''a.srt'' \<mapsto> ''1 {a}'', ''b.srt'' \<mapsto> ''1 {b}'')"
  let ?argv = "[''*.json'']"
  have p: "parse_arguments example_env ?argv = Inr ?argv"
    by (simp add: parse_arguments_def)
  have g: "extend_globs example_env ?fs [] ?argv = [''a.json'', ''b_response.json'']"
    by (simp add: example_calls example_walks)
  have run: "for_files example_env ?fs [''a.json'', ''b_response.json''] =
     \<lparr>raised = None, disk = ?fs1,
      io = [Read ''a.json'', Truncate ''a.srt'', Write ''a.srt'' ''1 {a}'',
            Read ''b_response.json'', Truncate ''b.srt'', Write ''b.srt'' ''1 {b}'']\<rparr>"
    by (simp add: process_file_def example_outputs example_locate example_calls)
  have d: "disk (main example_env ?fs ?argv) = ?fs1"
    using g run by (simp add: main_def p Let_def)
  have r: "raised (main example_env ?fs ?argv) = None"
    using g run by (simp add: main_def p Let_def)
  have g1: "extend_globs example_env ?fs1 [] ?argv = [''a.json'', ''b_response.json'']"
    by (simp add: example_calls example_walks)
  have h2: "extend_globs example_env (disk (main example_env ?fs ?argv)) [] ?argv =
      extend_globs example_env ?fs [] ?argv"
    unfolding d g g1 ..
  have k: "key example_env ''a.json'' = ''a.json''"
    "key example_env ''b_response.json'' = ''b_response.json''"
    using example_locate(1,2) by (simp_all add: locate_def split: if_splits)
  have h3: "\<forall>f \<in> set (extend_globs example_env ?fs [] ?argv).
      disk (main example_env ?fs ?argv) (key example_env f) = ?fs (key example_env f)"
    unfolding d g by (simp add: k)
  note c = C8_second_run_identical [OF p h2 h3]
  from c have "raised (main example_env (disk (main example_env ?fs ?argv)) ?argv) =
      raised (main example_env ?fs ?argv)"
    and "disk (main example_env (disk (main example_env ?fs ?argv)) ?argv) =
      disk (main example_env ?fs ?argv)"
    by blast+
  with r d show ?thesis
    by simp
qed

text \<open>
  When the first run changes one of its inputs the second run can leave other outputs:
  here the first run replaces the contents of its input \<^verbatim>\<open>x.srt\<close>, the second run
  fails on it, and \<^verbatim>\<open>a.srt\<close> keeps what the second run wrote before, not what the
  first run left.
\<close>

theorem C8_changed_input_counterexample:
  "raised (main example_env
      [''a.json'' \<mapsto> ''{a}'', ''x.srt'' \<mapsto> ''{x}'', ''a_response.json'' \<mapsto> ''{r}'']
      [''a.json'', ''x.srt'', ''a_response.json'']) = None \<and>
   disk (main example_env
      [''a.json'' \<mapsto> ''{a}'', ''x.srt'' \<mapsto> ''{x}'', ''a_response.json'' \<mapsto> ''{r}'']
      [''a.json'', ''x.srt'', ''a_response.json'']) ''a.srt'' = Some ''1 {r}'' \<and>
   disk (main example_env
      (disk (main example_env
        [''a.json'' \<mapsto> ''{a}'', ''x.srt'' \<mapsto> ''{x}'', ''a_response.json'' \<mapsto> ''{r}'']
        [''a.json'', ''x.srt'', ''a_response.json'']))
      [''a.json'', ''x.srt'', ''a_response.json'']) ''a.srt'' = Some ''1 {a}''"
proof -
  let ?fs = "[''a.json'' \<mapsto> ''{a}'', ''x.srt'' \<mapsto> ''{x}'', ''a_response.json'' \<mapsto> ''{r}'']"
  let ?fs1 = "?fs(''a.srt'' \<mapsto> ''1 {a}'', ''x.srt'' \<mapsto> ''1 {x}'', ''a.srt'' \<mapsto> ''1 {r}'')"
  let ?argv = "[''a.json'', ''x.srt'', ''a_response.json'']"
  have p: "parse_arguments example_env ?argv = Inr ?argv"
    by (simp add: parse_arguments_def)
  have g: "extend_globs example_env ?fs [] ?argv = ?argv"
    by (simp add: example_calls example_walks)
  have run: "for_files example_env ?fs ?argv =
     \<lparr>raised = None, disk = ?fs1,
      io = [Read ''a.json'', Truncate ''a.srt'', Write ''a.srt'' ''1 {a}'',
            Read ''x.srt'', Truncate ''x.srt'', Write ''x.srt'' ''1 {x}'',
            Read ''a_response.json'', Truncate ''a.srt'', Write ''a.srt'' ''1 {r}'']\<rparr>"
    by (simp add: process_file_def example_outputs example_locate example_calls)
  have m1: "main example_env ?fs ?argv = (for_files example_env ?fs ?argv)\<lparr>io :=
      map Glob ?argv @ io (for_files example_env ?fs ?argv)\<rparr>"
    using g by (simp add: main_def p Let_def)
  have d1: "disk (main example_env ?fs ?argv) = ?fs1" and r1: "raised (main example_env ?fs ?argv) = None"
    unfolding m1 run by simp_all
  have g2: "extend_globs example_env ?fs1 [] ?argv = ?argv"
    by (simp add: example_calls example_walks)
  have run2: "for_files example_env ?fs1 ?argv =
     \<lparr>raised = Some JSONDecodeError, disk = ?fs1(''a.srt'' \<mapsto> ''1 {a}''),
      io = [Read ''a.json'', Truncate ''a.srt'', Write ''a.srt'' ''1 {a}'', Read ''x.srt'']\<rparr>"
    by (simp add: process_file_def example_outputs example_locate example_calls)
  have d2: "disk (main example_env ?fs1 ?argv) = ?fs1(''a.srt'' \<mapsto> ''1 {a}'')"
    using g2 run2 by (simp add: main_def p Let_def)
  show ?thesis
    unfolding d1 r1 d2 by simp
qed

subsection \<open>Auxiliary facts about \<^verbatim>\<open>str.replace\<close> and the parts of a path\<close>

lemma directory_filename: "directory_of p @ filename_of p = p"
proof -
  have "rev (takeWhile (\<lambda>c. c \<noteq> CHR ''/'') (rev p) @ dropWhile (\<lambda>c. c \<noteq> CHR ''/'') (rev p)) = p"
    by simp
  then show ?thesis
    unfolding directory_of_def filename_of_def rev_append .
qed

lemma filename_no_slash: "CHR ''/'' \<notin> set (filename_of p)"
  by (auto simp: filename_of_def dest: set_takeWhileD)

lemma directory_ends_slash: "directory_of p = [] \<or> last (directory_of p) = CHR ''/''"
proof (cases "dropWhile (\<lambda>c. c \<noteq> CHR ''/'') (rev p)")
  case Nil
  then show ?thesis by (simp add: directory_of_def)
next
  case (Cons a as)
  then have "\<not> (hd (dropWhile (\<lambda>c. c \<noteq> CHR ''/'') (rev p)) \<noteq> CHR ''/'')"
    using hd_dropWhile [of "\<lambda>c. c \<noteq> CHR ''/''" "rev p"] by simp
  with Cons show ?thesis
    by (simp add: directory_of_def)
qed

lemma str_replace_absent:
  "old \<noteq> [] \<Longrightarrow> count_occ old s = 0 \<Longrightarrow> str_replace old new s = s"
  by (induction s) (auto split: if_splits)





subsection \<open>Auxiliary facts about parsing and printing a path\<close>

lemma split_on_nonempty: "split_on sep s \<noteq> []"
  by (induction s) (auto split: list.splits)

lemma split_on_append:
  "split_on sep (xs @ ys) =
     butlast (split_on sep xs) @ [last (split_on sep xs) @ hd (split_on sep ys)] @ tl (split_on sep ys)"
proof (induction xs)
  case Nil
  then show ?case by (simp add: split_on_nonempty)
next
  case (Cons c xs)
  then show ?case
    using split_on_nonempty [of sep xs]
    by (cases "split_on sep xs") (auto split: list.splits)
qed

lemma split_on_no_sep: "sep \<notin> set f \<Longrightarrow> split_on sep f = [f]"
  by (induction f) auto

lemma split_on_ends_sep:
  assumes "r = [] \<or> last r = sep"
  shows "last (split_on sep r) = []"
proof (cases r rule: rev_cases)
  case Nil
  then show ?thesis by simp
next
  case (snoc xs x)
  with assms have "r = xs @ [sep]" by simp
  then show ?thesis
    by (simp add: split_on_append)
qed

lemma split_on_dir_file:
  assumes "r = [] \<or> last r = sep" and "sep \<notin> set f"
  shows "split_on sep (r @ f) = butlast (split_on sep r) @ [f]"
  using split_on_ends_sep [OF assms(1)] split_on_no_sep [OF assms(2)]
  by (simp add: split_on_append)

lemma splitroot_dir_file:
  assumes "d = [] \<or> last d = CHR ''/''" and "f \<noteq> []" and "CHR ''/'' \<notin> set f"
  shows "splitroot (d @ f) = (fst (splitroot d), snd (splitroot d) @ f) \<and>
         (snd (splitroot d) = [] \<or> last (snd (splitroot d)) = CHR ''/'')"
proof -
  from assms(2,3) obtain x xs where f: "f = x # xs" "x \<noteq> CHR ''/''"
    by (cases f) auto
  consider "d = []" | a where "d = [a]" | a b where "d = [a, b]" | a b c r where "d = a # b # c # r"
    by (cases d; cases "tl d"; cases "tl (tl d)") auto
  then show ?thesis
  proof cases
    case 1
    with f show ?thesis by (simp add: splitroot_def)
  next
    case 2
    with f assms(1) show ?thesis by (simp add: splitroot_def)
  next
    case 3
    with f assms(1) show ?thesis by (simp add: splitroot_def)
  next
    case 4
    with f assms(1) show ?thesis by (auto simp: splitroot_def)
  qed
qed

lemma Path_dir_file:
  assumes "d = [] \<or> last d = CHR ''/''" and "f \<noteq> []" and "f \<noteq> ''.''" and "CHR ''/'' \<notin> set f"
  shows "Path (d @ f) = \<lparr>root = root (Path d), tail = tail (Path d) @ [f]\<rparr>"
proof -
  let ?ok = "\<lambda>x. x \<noteq> [] \<and> x \<noteq> ''.''"
  obtain R rel where s: "splitroot d = (R, rel)"
    by (cases "splitroot d")
  from splitroot_dir_file [OF assms(1,2,4)] s
  have sf: "splitroot (d @ f) = (R, rel @ f)" and e: "rel = [] \<or> last rel = CHR ''/''"
    by simp_all
  have a: "split_on CHR ''/'' (rel @ f) = butlast (split_on CHR ''/'' rel) @ [f]"
    using e assms(4) by (rule split_on_dir_file)
  have "split_on CHR ''/'' rel = butlast (split_on CHR ''/'' rel) @ [last (split_on CHR ''/'' rel)]"
    by (simp add: split_on_nonempty)
  then have "filter ?ok (split_on CHR ''/'' rel) =
      filter ?ok (butlast (split_on CHR ''/'' rel) @ [[]])"
    using split_on_ends_sep [OF e] by simp
  then have b: "filter ?ok (split_on CHR ''/'' rel) = filter ?ok (butlast (split_on CHR ''/'' rel))"
    by simp
  have df: "Path (d @ f) = \<lparr>root = R, tail = filter ?ok (butlast (split_on CHR ''/'' rel)) @ [f]\<rparr>"
    using assms(2,3) by (simp add: Path_def sf a)
  have "Path d = \<lparr>root = R, tail = filter ?ok (butlast (split_on CHR ''/'' rel))\<rparr>"
  proof (cases "d = []")
    case True
    with s show ?thesis by (simp add: Path_def splitroot_def)
  next
    case False
    with s b show ?thesis by (simp add: Path_def)
  qed
  with df show ?thesis by simp
qed

lemma join_snoc_sep:
  "x \<noteq> [] \<Longrightarrow> join sep (T @ [x]) = (if T = [] then [] else join sep T @ sep) @ x"
  by (induction sep T rule: join.induct) auto

lemma str_of_snoc:
  assumes "x \<noteq> []"
  shows "str_of \<lparr>root = R, tail = T @ [x]\<rparr> = R @ (if T = [] then [] else join ''/'' T @ ''/'') @ x"
  using assms by (simp add: str_of_def join_snoc_sep Let_def)

lemma with_suffix_replace_extension:
  assumes "x \<noteq> []"
  shows "with_suffix \<lparr>root = R, tail = T @ [x]\<rparr> ''.srt'' =
           Inr \<lparr>root = R, tail = T @ [replace_extension x ''.srt'']\<rparr>"
proof -
  have "rfind CHR ''.'' x = Some i \<Longrightarrow> length x - (length x - i) = i" for i
    using rfind_bound [of "CHR ''.''" x i] by simp
  with assms show ?thesis
    by (auto simp: with_suffix_def name_def suffix_of_def replace_extension_def
        split: option.splits)
qed


subsection \<open>The derived output path\<close>




text \<open>
  The output path is printed by pathlib, which drops \<^verbatim>\<open>.\<close> components and
  repeated slashes: another spelling of the same location. A file named
  \<^verbatim>\<open>_response\<close> leaves no name to give a suffix to.
\<close>

lemma output_file_respelled:
  "output_file ''./bar.json'' = Inr ''bar.srt''"
  "output_file ''./a.srt'' = Inr ''a.srt''"
  "output_file ''a//b/./c.json'' = Inr ''a/b/c.srt''"
  "output_file ''_response'' = Inl ValueError"
  by (simp_all add: output_file_def Path_def splitroot_def with_suffix_def name_def
      suffix_of_def str_of_def)

subsection \<open>Where a printed path leads\<close>

text \<open>
  pathlib's parts of a path are the steps of its walk, and printing a parsed path gives a
  path with the same walk.
\<close>

lemma Path_steps: "path_steps p = (root (Path p) \<noteq> [], tail (Path p))"
proof -
  consider "p = []" | a where "p = [a]" | a b where "p = [a, b]" | a b c r where "p = a # b # c # r"
    by (cases p; cases "tl p"; cases "tl (tl p)") auto
  then show ?thesis
    by cases (auto simp: path_steps_def Path_def splitroot_def)
qed

lemma split_on_parts: "x \<in> set (split_on sep s) \<Longrightarrow> sep \<notin> set x"
  by (induction s arbitrary: x) (auto split: if_splits list.splits)

lemma Path_root: "root (Path p) \<in> {[], ''/'', ''//''}"
  by (auto simp: Path_def splitroot_def)

lemma Path_parts:
  assumes "x \<in> set (tail (Path p))"
  shows "x \<noteq> [] \<and> x \<noteq> ''.'' \<and> CHR ''/'' \<notin> set x"
  using assms by (auto simp: Path_def split: if_splits prod.splits dest: split_on_parts)

lemma split_on_part_sep: "sep \<notin> set x \<Longrightarrow> split_on sep (x @ sep # r) = x # split_on sep r"
  by (induction x) auto

lemma split_on_join:
  assumes "\<forall>x \<in> set T. sep \<notin> set x" and "T \<noteq> []"
  shows "split_on sep (join [sep] T) = T"
  using assms
proof (induction T rule: induct_list012)
  case 1
  then show ?case by simp
next
  case (2 x)
  then show ?case by (simp add: split_on_no_sep)
next
  case (3 x y zs)
  then show ?case by (simp add: split_on_part_sep)
qed

lemma take1_join:
  assumes "T \<noteq> []" and "hd T \<noteq> []"
  shows "take 1 (join sep T) = take 1 (hd T)"
proof -
  from assms obtain a as ts where "T = (a # as) # ts"
    by (cases T; cases "hd T") auto
  then show ?thesis
    by (cases ts) simp_all
qed

lemma steps_print:
  fixes P :: PurePath
  assumes "root P \<in> {[], ''/'', ''//''}"
    and "\<forall>x \<in> set (tail P). x \<noteq> [] \<and> x \<noteq> ''.'' \<and> CHR ''/'' \<notin> set x"
  shows "path_steps (str_of P) = (root P \<noteq> [], tail P)"
proof (cases "tail P = []")
  case True
  with assms(1) show ?thesis
    by (auto simp: path_steps_def str_of_def)
next
  case False
  have j: "split_on CHR ''/'' (join ''/'' (tail P)) = tail P"
    using assms(2) False by (intro split_on_join) auto
  have f: "filter (\<lambda>x. x \<noteq> [] \<and> x \<noteq> ''.'') (tail P) = tail P"
    using assms(2) by (simp add: filter_id_conv)
  from False assms(2) have h: "hd (tail P) \<noteq> []" "CHR ''/'' \<notin> set (hd (tail P))"
    by (cases "tail P"; simp)+
  then obtain a as where a: "hd (tail P) = a # as" "a \<noteq> CHR ''/''"
    by (cases "hd (tail P)") auto
  have t: "take 1 (join ''/'' (tail P)) = [a]"
    using take1_join [OF False h(1), of "''/''"] a(1) by simp
  then have n: "join ''/'' (tail P) \<noteq> []"
    by auto
  from assms(1) consider "root P = []" | "root P = ''/''" | "root P = ''//''"
    by auto
  then show ?thesis
  proof cases
    case 1
    with j f n t a(2) show ?thesis
      by (simp add: path_steps_def str_of_def)
  next
    case 2
    with j f show ?thesis
      by (simp add: path_steps_def str_of_def)
  next
    case 3
    with j f show ?thesis
      by (simp add: path_steps_def str_of_def)
  qed
qed

lemma Path_print_steps: "path_steps (str_of (Path p)) = path_steps p"
proof -
  have "path_steps (str_of (Path p)) = (root (Path p) \<noteq> [], tail (Path p))"
    using Path_root [of p] Path_parts [of _ p] by (intro steps_print) blast+
  then show ?thesis
    by (simp add: Path_steps)
qed

lemma filename_of_append:
  assumes "CHR ''/'' \<notin> set t"
  shows "filename_of (s @ t) = filename_of s @ t"
proof -
  have "takeWhile (\<lambda>c. c \<noteq> CHR ''/'') (rev t @ rev s) =
      rev t @ takeWhile (\<lambda>c. c \<noteq> CHR ''/'') (rev s)"
    using assms by (intro takeWhile_append2) auto
  then show ?thesis
    by (simp add: filename_of_def)
qed

lemma filename_of_dir_file:
  assumes "d = [] \<or> last d = CHR ''/''" and "CHR ''/'' \<notin> set f"
  shows "filename_of (d @ f) = f"
proof -
  have "filename_of d = []"
    using assms(1) by (cases d rule: rev_cases) (auto simp: filename_of_def)
  with filename_of_append [OF assms(2), of d] show ?thesis
    by simp
qed

lemma filename_print:
  assumes "R \<in> {[], ''/'', ''//''}" and "x \<noteq> []" and "CHR ''/'' \<notin> set x"
  shows "filename_of (str_of \<lparr>root = R, tail = T @ [x]\<rparr>) = x"
proof -
  let ?d = "R @ (if T = [] then [] else join ''/'' T @ ''/'')"
  from assms(1) have "?d = [] \<or> last ?d = CHR ''/''"
    by auto
  then have "filename_of (?d @ x) = x"
    using assms(3) by (rule filename_of_dir_file)
  then show ?thesis
    using str_of_snoc [OF assms(2), of R T] by simp
qed

lemma replace_extension_none:
  "extension_of x = [] \<Longrightarrow> replace_extension x ext = x @ ext"
  using rfind_bound [of "CHR ''.''" x]
  by (auto simp: extension_of_def replace_extension_def split: option.splits if_splits)

subsection \<open>Names without an extension\<close>

text \<open>
  C10 (amended). When the filename component of the path, after the removal of
  \<^verbatim>\<open>_response\<close>, is a name (neither empty nor a single dot) that has no extension (no
  dot, or a dot only as its first or last character), the output path is formed by
  appending: it leads where the path after the removal, followed by \<^verbatim>\<open>.srt\<close>,
  leads, and its filename component is the old one followed by \<^verbatim>\<open>.srt\<close>.
\<close>

theorem C10_no_extension_appends:
  assumes "filename_of (str_replace ''_response'' '''' file) \<noteq> []"
    and "filename_of (str_replace ''_response'' '''' file) \<noteq> ''.''"
    and "extension_of (filename_of (str_replace ''_response'' '''' file)) = []"
  shows "\<exists>out. output_file file = Inr out \<and>
           path_steps out = path_steps (str_replace ''_response'' '''' file @ ''.srt'') \<and>
           filename_of out = filename_of (str_replace ''_response'' '''' file) @ ''.srt''"
proof -
  let ?p = "str_replace ''_response'' '''' file"
  let ?d = "directory_of ?p" and ?f = "filename_of ?p"
  let ?R = "root (Path ?d)" and ?T = "tail (Path ?d)"
  let ?Q = "\<lparr>root = ?R, tail = ?T @ [?f @ ''.srt'']\<rparr>"
  have d: "?d = [] \<or> last ?d = CHR ''/''"
    by (rule directory_ends_slash)
  have fs: "CHR ''/'' \<notin> set ?f"
    by (rule filename_no_slash)
  then have gs: "CHR ''/'' \<notin> set (?f @ ''.srt'')"
    by simp
  have "Path ?p = Path (?d @ ?f)"
    by (simp add: directory_filename)
  also have "\<dots> = \<lparr>root = ?R, tail = ?T @ [?f]\<rparr>"
    using d assms(1,2) fs by (rule Path_dir_file)
  finally have p: "Path ?p = \<lparr>root = ?R, tail = ?T @ [?f]\<rparr>" .
  have "with_suffix (Path ?p) ''.srt'' = Inr ?Q"
    unfolding p using assms(1,3)
    by (simp add: with_suffix_replace_extension replace_extension_none)
  then have o: "output_file file = Inr (str_of ?Q)"
    by (simp add: output_file_def)
  have "\<forall>x \<in> set (?T @ [?f @ ''.srt'']). x \<noteq> [] \<and> x \<noteq> ''.'' \<and> CHR ''/'' \<notin> set x"
    using Path_parts [of _ ?d] fs by auto
  then have s1: "path_steps (str_of ?Q) = (?R \<noteq> [], ?T @ [?f @ ''.srt''])"
    using Path_root [of ?d] steps_print [of ?Q] by simp
  have "?p @ ''.srt'' = ?d @ (?f @ ''.srt'')"
    by (metis append_assoc directory_filename)
  then have "path_steps (?p @ ''.srt'') = path_steps (?d @ (?f @ ''.srt''))"
    by (rule arg_cong)
  also have "\<dots> = (root (Path (?d @ (?f @ ''.srt''))) \<noteq> [], tail (Path (?d @ (?f @ ''.srt''))))"
    by (rule Path_steps)
  also have "Path (?d @ (?f @ ''.srt'')) = ?Q"
    using d _ _ gs by (rule Path_dir_file) simp_all
  finally have s2: "path_steps (?p @ ''.srt'') = (?R \<noteq> [], ?T @ [?f @ ''.srt''])"
    by simp
  have n: "filename_of (str_of ?Q) = ?f @ ''.srt''"
    using Path_root [of ?d] _ gs by (rule filename_print) simp
  from o s1 s2 n show ?thesis
    by (intro exI [of _ "str_of ?Q"]) simp
qed

theorem C10_no_extension_appends_witness:
  "filename_of (str_replace ''_response'' '''' ''_response.json'') = ''.json'' \<and>
   extension_of ''.json'' = [] \<and>
   output_file ''_response.json'' = Inr ''.json.srt'' \<and>
   filename_of (str_replace ''_response'' '''' ''notes'') = ''notes'' \<and>
   extension_of ''notes'' = [] \<and>
   output_file ''notes'' = Inr ''notes.srt''"
proof -
  have f: "filename_of (str_replace ''_response'' '''' ''_response.json'') = ''.json''"
    "filename_of (str_replace ''_response'' '''' ''notes'') = ''notes''"
    by (simp_all add: filename_of_def)
  have e: "extension_of ''.json'' = []" "extension_of ''notes'' = []"
    by (simp_all add: extension_of_def)
  have a: "filename_of (str_replace ''_response'' '''' ''_response.json'') \<noteq> []"
    "filename_of (str_replace ''_response'' '''' ''_response.json'') \<noteq> ''.''"
    "extension_of (filename_of (str_replace ''_response'' '''' ''_response.json'')) = []"
    unfolding f by (simp_all add: e)
  have b: "filename_of (str_replace ''_response'' '''' ''notes'') \<noteq> []"
    "filename_of (str_replace ''_response'' '''' ''notes'') \<noteq> ''.''"
    "extension_of (filename_of (str_replace ''_response'' '''' ''notes'')) = []"
    unfolding f by (simp_all add: e)
  from C10_no_extension_appends [OF a] obtain out1 where
    "output_file ''_response.json'' = Inr out1"
    "filename_of out1 = filename_of (str_replace ''_response'' '''' ''_response.json'') @ ''.srt''"
    by blast
  moreover from C10_no_extension_appends [OF b] obtain out2 where
    "output_file ''notes'' = Inr out2"
    "filename_of out2 = filename_of (str_replace ''_response'' '''' ''notes'') @ ''.srt''"
    by blast
  moreover have "output_file ''_response.json'' = Inr ''.json.srt''"
    "output_file ''notes'' = Inr ''notes.srt''"
    by (simp_all add: output_file_def Path_def splitroot_def with_suffix_def name_def
        suffix_of_def str_of_def)
  ultimately show ?thesis
    using f e by simp
qed

text \<open>
  When the removal leaves no filename, nothing is appended to it: for a file called
  \<^verbatim>\<open>_response\<close> in the working directory \<^verbatim>\<open>with_suffix\<close> raises, and in a
  directory \<^verbatim>\<open>d.v1\<close> it replaces the suffix of the directory's name.
\<close>

theorem C10_no_name_counterexample:
  "filename_of (str_replace ''_response'' '''' ''_response'') = [] \<and>
   extension_of [] = [] \<and>
   output_file ''_response'' = Inl ValueError \<and>
   filename_of (str_replace ''_response'' '''' ''d.v1/_response'') = [] \<and>
   output_file ''d.v1/_response'' = Inr ''d.srt''"
  by (simp add: filename_of_def extension_of_def output_file_def Path_def splitroot_def
      with_suffix_def name_def suffix_of_def str_of_def)

subsection \<open>An input that is its own output\<close>

lemma with_suffix_srt_same:
  assumes "suffix ''.srt'' (name P)" and "name P \<noteq> ''.srt''"
  shows "with_suffix P ''.srt'' = Inr P"
proof -
  from assms obtain stem where n: "name P = stem @ ''.srt''" and s: "stem \<noteq> []"
    by (auto simp: suffix_def)
  then have t: "tail P \<noteq> []" and l: "last (tail P) = stem @ ''.srt''"
    by (auto simp: name_def split: if_splits)
  from t l s have x: "suffix_of P = ''.srt''"
    by (rule suffix_of_srt)
  have "P\<lparr>tail := butlast (tail P) @ [last (tail P)]\<rparr> = P"
    using t by simp
  with n t l x show ?thesis
    by (simp add: with_suffix_def)
qed

text \<open>
  C9 (amended). For a path without \<^verbatim>\<open>_response\<close> that ends in \<^verbatim>\<open>.srt\<close> and
  whose filename component is longer than that, the derived output path is the input
  path as pathlib prints it, which leads to the input file; when the file is processed
  without an exception it is read to its end first, then truncated, then written with the
  encoded captions of the contents that were read.
\<close>

theorem C9_overwrites_its_input:
  assumes "count_occ ''_response'' file = 0"
    and "suffix ''.srt'' file"
    and "filename_of file \<noteq> ''.srt''"
    and "fs (key E file) = Some raw"
    and "decode_utf8 E raw = Some file_data"
    and "json_loads E file_data = Inr dg_response"
    and "DeepgramConverter E dg_response = Some transcription"
    and "srt E transcription = Some captions"
    and "may_open_w E (key E file)"
    and "encode_utf8 E captions = Some data"
  shows "output_file file = Inr (str_of (Path file)) \<and>
         path_steps (str_of (Path file)) = path_steps file \<and>
         process_file E fs file =
           \<lparr>raised = None, disk = fs(key E file \<mapsto> data),
            io = [Read file, Truncate (str_of (Path file)), Write (str_of (Path file)) data]\<rparr>"
proof -
  let ?d = "directory_of file" and ?f = "filename_of file"
  let ?R = "root (Path ?d)" and ?T = "tail (Path ?d)"
  from assms(2) obtain s where s: "file = s @ ''.srt''"
    by (auto simp: suffix_def)
  then have f: "?f = filename_of s @ ''.srt''"
    by (simp add: filename_of_append)
  with assms(3) have stem: "filename_of s \<noteq> []"
    by auto
  from f have f0: "?f \<noteq> []" and f1: "?f \<noteq> ''.''" and f2: "?f \<noteq> ''..''"
    by auto
  have slash: "CHR ''/'' \<notin> set ?f"
    by (rule filename_no_slash)
  have "Path file = Path (?d @ ?f)"
    by (simp add: directory_filename)
  also have "\<dots> = \<lparr>root = ?R, tail = ?T @ [?f]\<rparr>"
    using directory_ends_slash f0 f1 slash by (rule Path_dir_file)
  finally have p: "Path file = \<lparr>root = ?R, tail = ?T @ [?f]\<rparr>" .
  then have n: "name (Path file) = ?f"
    by (simp add: name_def)
  have "suffix ''.srt'' (name (Path file))"
    unfolding n f by (rule suffixI) simp
  then have w: "with_suffix (Path file) ''.srt'' = Inr (Path file)"
    using assms(3) n by (intro with_suffix_srt_same) simp_all
  have "str_replace ''_response'' '''' file = file"
    using assms(1) by (intro str_replace_absent) simp_all
  with w have o: "output_file file = Inr (str_of (Path file))"
    by (simp add: output_file_def)
  have st: "path_steps (str_of (Path file)) = path_steps file"
    by (rule Path_print_steps)
  then have k: "key E (str_of (Path file)) = key E file"
    by (simp add: key_def)
  have "filename_of (str_of (Path file)) = ?f"
    unfolding p using Path_root [of ?d] f0 slash by (rule filename_print)
  with f0 f1 f2 k have l2: "locate E (str_of (Path file)) = Some (key E file)"
    by (simp add: locate_def)
  from f0 f1 f2 have l1: "locate E file = Some (key E file)"
    by (simp add: locate_def)
  from o l1 l2 assms(4-10) have "process_file E fs file =
      \<lparr>raised = None, disk = fs(key E file \<mapsto> data),
       io = [Read file, Truncate (str_of (Path file)), Write (str_of (Path file)) data]\<rparr>"
    by (simp add: process_file_def)
  with o st show ?thesis
    by blast
qed

theorem C9_overwrites_its_input_witness:
  "count_occ ''_response'' ''./x.srt'' = 0 \<and>
   suffix ''.srt'' ''./x.srt'' \<and>
   filename_of ''./x.srt'' \<noteq> ''.srt'' \<and>
   key example_env ''./x.srt'' = ''x.srt'' \<and>
   output_file ''./x.srt'' = Inr ''x.srt'' \<and>
   process_file example_env [''x.srt'' \<mapsto> ''{x}''] ''./x.srt'' =
     \<lparr>raised = None, disk = [''x.srt'' \<mapsto> ''1 {x}''],
      io = [Read ''./x.srt'', Truncate ''x.srt'', Write ''x.srt'' ''1 {x}'']\<rparr>"
proof -
  have a: "count_occ ''_response'' ''./x.srt'' = 0"
    by simp
  have b: "suffix ''.srt'' ''./x.srt''"
    by (simp add: suffix_def)
  have c: "filename_of ''./x.srt'' \<noteq> ''.srt''"
    by (simp add: filename_of_def)
  have k: "key example_env ''./x.srt'' = ''x.srt''"
    using example_locate(9) by (simp add: locate_def split: if_splits)
  have s: "str_of (Path ''./x.srt'') = ''x.srt''"
    by (simp add: Path_def splitroot_def str_of_def)
  have e: "[''x.srt'' \<mapsto> ''{x}''] (key example_env ''./x.srt'') = Some ''{x}''"
    unfolding k by simp
  have f: "decode_utf8 example_env ''{x}'' = Some ''{x}''"
    "json_loads example_env ''{x}'' = Inr ''{x}''"
    "DeepgramConverter example_env ''{x}'' = Some ''{x}''"
    "srt example_env ''{x}'' = Some ''1 {x}''"
    "may_open_w example_env (key example_env ''./x.srt'')"
    "encode_utf8 example_env ''1 {x}'' = Some ''1 {x}''"
    by (simp_all add: example_calls)
  from C9_overwrites_its_input [where fs = "[''x.srt'' \<mapsto> ''{x}'']", OF a b c e f] a b c
  show ?thesis
    unfolding k s by simp
qed

text \<open>
  A file named \<^verbatim>\<open>.srt\<close> ends in \<^verbatim>\<open>.srt\<close> and has no suffix for pathlib: its
  output is another file.
\<close>

theorem C9_dot_srt_counterexample:
  "count_occ ''_response'' ''.srt'' = 0 \<and> suffix ''.srt'' ''.srt'' \<and>
   output_file ''.srt'' = Inr ''.srt.srt''"
  by (simp add: output_file_def Path_def splitroot_def with_suffix_def name_def
      suffix_of_def str_of_def suffix_def)

end
